theory Spec2Isabelle
  imports Main "HOL-Library.Multiset" "HOL-Library.Sublist"
begin

section \<open>Data model\<close>

text \<open>
  Exceptions the engine could raise: a missing key of the group table, and
  \<^verbatim>\<open>combinations(numbers, None)\<close>.
\<close>

datatype error = KeyError | TypeError

text \<open>
  Class \<^verbatim>\<open>Calculation\<close>: an expression string, its integer result and the
  singleton flag.
\<close>

record calculation =
  expr :: string
  result :: int
  is_singleton :: bool

text \<open>
  Class \<^verbatim>\<open>Group\<close>: the tuple of numbers, its length, the stored partitions
  (pairs of groups) and the list of calculations.
\<close>

datatype group = Group
  (numbers: "int list")
  (group_size: nat)
  (partitions: "(group \<times> group) list")
  (calculations: "calculation list")

text \<open>
  The dictionary \<^verbatim>\<open>all_groups\<close> keeps insertion order, and \<^verbatim>\<open>walk\<close> reads its
  values in that order: it is an association list, new keys appended.
\<close>

type_synonym group_table = "(int list \<times> group) list"

record solutions =
  all_numbers :: "int list"
  size_solutions :: nat
  all_groups :: group_table

section \<open>Library functions used by the engine\<close>

text \<open>
  \<^verbatim>\<open>itertools.combinations(xs, r)\<close>: the \<open>r\<close>-length selections of positions of
  \<open>xs\<close>, in lexicographic order of the positions.
\<close>

fun combinations :: "'a list \<Rightarrow> nat \<Rightarrow> 'a list list" where
  "combinations xs 0 = [[]]"
| "combinations [] (Suc r) = []"
| "combinations (x # xs) (Suc r) =
     map ((#) x) (combinations xs r) @ combinations xs (Suc r)"

text \<open>\<^verbatim>\<open>itertools.zip_longest\<close> with the fill value \<^verbatim>\<open>None\<close>.\<close>

fun zip_longest :: "'a list \<Rightarrow> 'b list \<Rightarrow> ('a option \<times> 'b option) list" where
  "zip_longest [] [] = []"
| "zip_longest (x # xs) [] = (Some x, None) # zip_longest xs []"
| "zip_longest [] (y # ys) = (None, Some y) # zip_longest [] ys"
| "zip_longest (x # xs) (y # ys) = (Some x, Some y) # zip_longest xs ys"

text \<open>The decimal rendering \<^verbatim>\<open>f"{n}"\<close> of an integer.\<close>

definition digit_char :: "nat \<Rightarrow> char" where
  "digit_char d = ''0123456789'' ! d"

fun digits :: "nat \<Rightarrow> string" where
  "digits n = (if n < 10 then [digit_char n]
               else digits (n div 10) @ [digit_char (n mod 10)])"

declare digits.simps [simp del]

definition str :: "int \<Rightarrow> string" where
  "str n = (if n < 0 then CHR ''-'' # digits (nat (- n)) else digits (nat n))"

section \<open>Class Calculation\<close>

definition singleton :: "int \<Rightarrow> calculation" where
  "singleton n = \<lparr>expr = str n, result = n, is_singleton = True\<rparr>"

text \<open>
  \<^verbatim>\<open>operations\<close> yields up to four (result, operator) pairs, in this order.
  The test \<^verbatim>\<open>y > 1\<close> comes before \<^verbatim>\<open>x % y\<close>, so no division by zero is reached.
\<close>

definition operations :: "int \<Rightarrow> int \<Rightarrow> (int \<times> string) list" where
  "operations x y =
     [(x + y, ''+'')]
     @ (if x > y then [(x - y, ''-'')] else [])
     @ (if y > 1 \<and> x > 1 then [(x * y, ''x'')] else [])
     @ (if y > 1 \<and> x mod y = 0 then [(x div y, ''/'')] else [])"

definition paren :: "calculation \<Rightarrow> string" where
  "paren c = (if is_singleton c then expr c else ''('' @ expr c @ '')'')"

definition generate :: "calculation \<Rightarrow> calculation \<Rightarrow> calculation list" where
  "generate calca calcb =
     (let (ca, cb) = (if result calca < result calcb then (calcb, calca) else (calca, calcb))
      in map (\<lambda>(r, op).
                \<lparr>expr = paren ca @ '' '' @ op @ '' '' @ paren cb,
                 result = r, is_singleton = False\<rparr>)
             (operations (result ca) (result cb)))"

section \<open>Class Group\<close>

text \<open>
  \<^verbatim>\<open>filtering\<close>: the iterator \<^verbatim>\<open>elems\<close> and the current \<^verbatim>\<open>k\<close> are the second
  list; once it is exhausted \<^verbatim>\<open>k\<close> is \<^verbatim>\<open>None\<close>, which no number equals.
\<close>

fun filtering :: "int list \<Rightarrow> int list \<Rightarrow> int list" where
  "filtering [] elems = []"
| "filtering (n # ns) [] = n # filtering ns []"
| "filtering (n # ns) (k # ks) =
     (if n = k then filtering ns ks else n # filtering ns (k # ks))"

text \<open>
  \<^verbatim>\<open>_halfbinom\<close>: \<^verbatim>\<open>None\<close> for odd \<open>n\<close>; otherwise the running product over
  \<^verbatim>\<open>zip(reversed(range(n+1-k, n+1)), range(1, k+1))\<close>, floor-divided by two.
\<close>

definition halfbinom :: "int \<Rightarrow> int \<Rightarrow> int option" where
  "halfbinom n k =
     (if n mod 2 = 1 then None
      else Some (fold (\<lambda>(m, l) prod. (prod * m) div l)
                      (zip (rev [n + 1 - k..n]) [1..k]) 1 div 2))"

text \<open>
  \<^verbatim>\<open>_paired_combinations\<close>: each combination with its complement; the pair is
  yielded before the counter is compared with the limit.
\<close>

fun paired_from :: "int list \<Rightarrow> int option \<Rightarrow> int \<Rightarrow> int list list
    \<Rightarrow> (int list \<times> int list) list" where
  "paired_from nums limit cnt [] = []"
| "paired_from nums limit cnt (numbers1 # rest) =
     (numbers1, filtering nums numbers1)
     # (if Some cnt = limit then [] else paired_from nums limit (cnt + 1) rest)"

definition paired_combinations ::
    "int list \<Rightarrow> nat option \<Rightarrow> int option \<Rightarrow> error + (int list \<times> int list) list" where
  "paired_combinations nums m limit =
     (case m of None \<Rightarrow> Inl TypeError
      | Some r \<Rightarrow> Inr (paired_from nums limit 1 (combinations nums r)))"

definition lookup :: "group_table \<Rightarrow> int list \<Rightarrow> error + group" where
  "lookup tab key = (case map_of tab key of None \<Rightarrow> Inl KeyError | Some g \<Rightarrow> Inr g)"

text \<open>
  The inner loop of \<^verbatim>\<open>_partition_into_unique_pairs\<close>, threading the set
  \<^verbatim>\<open>unique_numbers\<close>; the yielded pairs are returned in order.
\<close>

fun pairs_loop :: "group_table \<Rightarrow> (int list \<times> int list) list \<Rightarrow> int list set
    \<Rightarrow> error + ((group \<times> group) list \<times> int list set)" where
  "pairs_loop tab [] uniq = Inr ([], uniq)"
| "pairs_loop tab ((numbers1, numbers2) # rest) uniq =
     (if numbers1 \<in> uniq then pairs_loop tab rest uniq
      else case lookup tab numbers1 of Inl e \<Rightarrow> Inl e
       | Inr group1 \<Rightarrow>
      (case lookup tab numbers2 of Inl e \<Rightarrow> Inl e
       | Inr group2 \<Rightarrow>
      (case pairs_loop tab rest (insert numbers1 uniq) of Inl e \<Rightarrow> Inl e
       | Inr (ps, u) \<Rightarrow> Inr ((group1, group2) # ps, u))))"

text \<open>The outer loop over the pairs \<open>(m, limit)\<close> of \<^verbatim>\<open>zip_longest\<close>.\<close>

fun sizes_loop :: "int list \<Rightarrow> group_table \<Rightarrow> (nat option \<times> int option option) list
    \<Rightarrow> int list set \<Rightarrow> error + (group \<times> group) list" where
  "sizes_loop nums tab [] uniq = Inr []"
| "sizes_loop nums tab ((m, limit) # rest) uniq =
     (case paired_combinations nums m (case limit of None \<Rightarrow> None | Some l \<Rightarrow> l) of
        Inl e \<Rightarrow> Inl e
      | Inr pairs \<Rightarrow>
     (case pairs_loop tab pairs uniq of Inl e \<Rightarrow> Inl e
      | Inr (ps, uniq') \<Rightarrow>
     (case sizes_loop nums tab rest uniq' of Inl e \<Rightarrow> Inl e
      | Inr ps' \<Rightarrow> Inr (ps @ ps'))))"

definition partition_into_unique_pairs ::
    "int list \<Rightarrow> group_table \<Rightarrow> error + (group \<times> group) list" where
  "partition_into_unique_pairs nums tab =
     (let size = length nums in
      if size = 1 then Inr []
      else
        let limits = [halfbinom (int size) (int size div 2)]
        in sizes_loop nums tab (zip_longest [(size + 1) div 2..<size] limits) {})"

definition perform_calculations ::
    "int list \<Rightarrow> (group \<times> group) list \<Rightarrow> calculation list" where
  "perform_calculations nums parts =
     (if length nums = 1 then [singleton (hd nums)]
      else concat (map (\<lambda>(group1, group2).
             concat (map (\<lambda>(calc1, calc2). generate calc1 calc2)
                         (List.product (calculations group1) (calculations group2))))
           parts))"

definition Group_init :: "int list \<Rightarrow> group_table \<Rightarrow> error + group" where
  "Group_init nums tab =
     (case partition_into_unique_pairs nums tab of Inl e \<Rightarrow> Inl e
      | Inr parts \<Rightarrow> Inr (Group nums (length nums) parts (perform_calculations nums parts)))"

section \<open>Class Solutions\<close>

fun groups_loop :: "int list list \<Rightarrow> group_table \<Rightarrow> error + group_table" where
  "groups_loop [] tab = Inr tab"
| "groups_loop (nums # rest) tab =
     (if map_of tab nums \<noteq> None then groups_loop rest tab
      else case Group_init nums tab of Inl e \<Rightarrow> Inl e
       | Inr g \<Rightarrow> groups_loop rest (tab @ [(nums, g)]))"

fun unique_groups_from :: "int list \<Rightarrow> nat list \<Rightarrow> group_table \<Rightarrow> error + group_table" where
  "unique_groups_from nums [] tab = Inr tab"
| "unique_groups_from nums (m # ms) tab =
     (case groups_loop (combinations nums m) tab of Inl e \<Rightarrow> Inl e
      | Inr tab' \<Rightarrow> unique_groups_from nums ms tab')"

definition unique_groups :: "int list \<Rightarrow> error + group_table" where
  "unique_groups nums = unique_groups_from nums [1..<length nums + 1] []"

definition Solutions_init :: "int list \<Rightarrow> error + solutions" where
  "Solutions_init nums =
     (case unique_groups nums of Inl e \<Rightarrow> Inl e
      | Inr tab \<Rightarrow> Inr \<lparr>all_numbers = nums, size_solutions = length nums, all_groups = tab\<rparr>)"

definition walk :: "solutions \<Rightarrow> calculation list" where
  "walk s = concat (map (\<lambda>(key, g). calculations g) (all_groups s))"

section \<open>The solver\<close>

text \<open>
  One turn of the scanning loop of \<^verbatim>\<open>countdown_solver\<close> on the state
  \<open>(smallest_difference, bestresults)\<close>.
\<close>

definition scan_step :: "int \<Rightarrow> calculation \<Rightarrow> int \<times> calculation list
    \<Rightarrow> int \<times> calculation list" where
  "scan_step target calc st =
     (let (smallest_difference, bestresults) = st;
          diff = \<bar>result calc - target\<bar>
      in if diff \<le> smallest_difference then
           (if diff < smallest_difference then (diff, [calc])
            else (smallest_difference, bestresults @ [calc]))
         else (smallest_difference, bestresults))"

definition scan :: "int \<Rightarrow> calculation list \<Rightarrow> int \<times> calculation list" where
  "scan target calcs = fold (scan_step target) calcs (target, [])"

text \<open>
  \<^verbatim>\<open>countdown_solver\<close> between the command line and the printing: the numbers
  are sorted in descending order, and the pair handed to \<^verbatim>\<open>output\<close> is returned.
\<close>

definition countdown_solver :: "int \<Rightarrow> int list \<Rightarrow> error + (int \<times> calculation list)" where
  "countdown_solver target unsorted_numbers =
     (let nums = rev (sort unsorted_numbers) in
      case Solutions_init nums of Inl e \<Rightarrow> Inl e
      | Inr s \<Rightarrow> Inr (scan target (walk s)))"

section \<open>Notions used to state the properties\<close>

text \<open>
  The state of the table while the groups of size \<open>m\<close> are being created:
  every key is the tuple of its group, a selection of the source numbers of
  size 1 to \<open>m\<close>; the keys are distinct and in ascending order of size; every
  selection of a size below \<open>m\<close> has its group.
\<close>

definition table_inv :: "int list \<Rightarrow> nat \<Rightarrow> group_table \<Rightarrow> bool" where
  "table_inv nums m tab \<longleftrightarrow>
     distinct (map fst tab)
   \<and> (\<forall>(key, g) \<in> set tab. numbers g = key \<and> group_size g = length key
         \<and> subseq key nums \<and> 1 \<le> length key \<and> length key \<le> m)
   \<and> (\<forall>ys. subseq ys nums \<and> 1 \<le> length ys \<and> length ys < m \<longrightarrow> map_of tab ys \<noteq> None)
   \<and> sorted (map (\<lambda>(key, g). length key) tab)"

text \<open>
  The number of source numbers an expression uses: every operator is written
  between two blanks and a number holds none, so an expression with \<open>k\<close>
  numbers has \<open>2 (k - 1)\<close> blanks.
\<close>

definition blanks :: "string \<Rightarrow> nat" where
  "blanks e = length (filter (\<lambda>c. c = CHR '' '') e)"

definition numbers_used :: "string \<Rightarrow> nat" where
  "numbers_used e = blanks e div 2 + 1"

section \<open>The memo table of the half-binomial helper\<close>

text \<open>
  \<^verbatim>\<open>_halfbinom\<close> is wrapped in \<^verbatim>\<open>lru_cache\<close>: the process keeps a table from the
  argument pair to the returned value, which outlives a run of the solver. A
  call first looks the pair up, and computes and stores the value on a miss.
  (The cache holds 128 entries before it drops one; a run stores one entry per
  group size, and a dropped entry is computed again.) The functions below are
  the builders of the table of groups with this table threaded through them;
  only \<^verbatim>\<open>_partition_into_unique_pairs\<close> calls the helper, once, and not for a
  group of size 1.
\<close>

type_synonym memo = "int \<times> int \<Rightarrow> int option option"

definition halfbinom_memo :: "int \<Rightarrow> int \<Rightarrow> memo \<Rightarrow> int option \<times> memo" where
  "halfbinom_memo n k cache =
     (case cache (n, k) of
        Some v \<Rightarrow> (v, cache)
      | None \<Rightarrow> (halfbinom n k, cache((n, k) \<mapsto> halfbinom n k)))"

definition partition_into_unique_pairs_memo ::
    "int list \<Rightarrow> group_table \<Rightarrow> memo \<Rightarrow> (error + (group \<times> group) list) \<times> memo" where
  "partition_into_unique_pairs_memo nums tab cache =
     (let size = length nums in
      if size = 1 then (Inr [], cache)
      else
        let (l, cache') = halfbinom_memo (int size) (int size div 2) cache;
            limits = [l]
        in (sizes_loop nums tab (zip_longest [(size + 1) div 2..<size] limits) {}, cache'))"

definition Group_init_memo :: "int list \<Rightarrow> group_table \<Rightarrow> memo \<Rightarrow> (error + group) \<times> memo" where
  "Group_init_memo nums tab cache =
     (case partition_into_unique_pairs_memo nums tab cache of
        (Inl e, cache') \<Rightarrow> (Inl e, cache')
      | (Inr parts, cache') \<Rightarrow>
          (Inr (Group nums (length nums) parts (perform_calculations nums parts)), cache'))"

fun groups_loop_memo :: "int list list \<Rightarrow> group_table \<Rightarrow> memo
    \<Rightarrow> (error + group_table) \<times> memo" where
  "groups_loop_memo [] tab cache = (Inr tab, cache)"
| "groups_loop_memo (nums # rest) tab cache =
     (if map_of tab nums \<noteq> None then groups_loop_memo rest tab cache
      else case Group_init_memo nums tab cache of
        (Inl e, cache') \<Rightarrow> (Inl e, cache')
      | (Inr g, cache') \<Rightarrow> groups_loop_memo rest (tab @ [(nums, g)]) cache')"

fun unique_groups_from_memo :: "int list \<Rightarrow> nat list \<Rightarrow> group_table \<Rightarrow> memo
    \<Rightarrow> (error + group_table) \<times> memo" where
  "unique_groups_from_memo nums [] tab cache = (Inr tab, cache)"
| "unique_groups_from_memo nums (m # ms) tab cache =
     (case groups_loop_memo (combinations nums m) tab cache of
        (Inl e, cache') \<Rightarrow> (Inl e, cache')
      | (Inr tab', cache') \<Rightarrow> unique_groups_from_memo nums ms tab' cache')"

definition unique_groups_memo :: "int list \<Rightarrow> memo \<Rightarrow> (error + group_table) \<times> memo" where
  "unique_groups_memo nums cache =
     unique_groups_from_memo nums [1..<length nums + 1] [] cache"

definition Solutions_init_memo :: "int list \<Rightarrow> memo \<Rightarrow> (error + solutions) \<times> memo" where
  "Solutions_init_memo nums cache =
     (case unique_groups_memo nums cache of
        (Inl e, cache') \<Rightarrow> (Inl e, cache')
      | (Inr tab, cache') \<Rightarrow>
          (Inr \<lparr>all_numbers = nums, size_solutions = length nums, all_groups = tab\<rparr>, cache'))"

definition countdown_solver_memo :: "int \<Rightarrow> int list \<Rightarrow> memo
    \<Rightarrow> (error + (int \<times> calculation list)) \<times> memo" where
  "countdown_solver_memo target unsorted_numbers cache =
     (let nums = rev (sort unsorted_numbers) in
      case Solutions_init_memo nums cache of
        (Inl e, cache') \<Rightarrow> (Inl e, cache')
      | (Inr s, cache') \<Rightarrow> (Inr (scan target (walk s)), cache'))"

text \<open>A memo table is sound when each stored value is the value of the helper.\<close>

definition memo_ok :: "memo \<Rightarrow> bool" where
  "memo_ok cache \<longleftrightarrow> (\<forall>n k v. cache (n, k) = Some v \<longrightarrow> v = halfbinom n k)"

section \<open>The four operations\<close>

lemma operations_mem:
  "(r, op) \<in> set (operations x y) \<longleftrightarrow>
     (op = ''+'' \<and> r = x + y)
   \<or> (op = ''-'' \<and> r = x - y \<and> y < x)
   \<or> (op = ''x'' \<and> r = x * y \<and> 1 < x \<and> 1 < y)
   \<or> (op = ''/'' \<and> 1 < y \<and> y dvd x \<and> r = x div y)"
  by (auto simp: operations_def mod_eq_0_iff_dvd)

lemma operations_distinct: "distinct (operations x y)"
  by (simp add: operations_def)

lemma operations_positive:
  assumes "0 < y" and "y \<le> x" and "(r, op) \<in> set (operations x y)"
  shows "0 < r"
proof -
  have d: "0 < x div y" if "y dvd x"
    using that assms(1,2) by (simp add: pos_imp_zdiv_pos_iff)
  have m: "0 < x * y" using assms(1,2) by simp
  from assms(3) have "r = x + y \<or> (r = x - y \<and> y < x) \<or> r = x * y \<or> (r = x div y \<and> x mod y = 0)"
    by (auto simp: operations_def split: if_splits)
  then show ?thesis using d m assms(1,2) by (auto simp: mod_eq_0_iff_dvd)
qed

lemma generate_results:
  "map result (generate ca cb) =
     map fst (operations (max (result ca) (result cb)) (min (result ca) (result cb)))"
  by (auto simp: generate_def max_def min_def case_prod_beta)

lemma exact_quotient:
  assumes "(0::int) < y"
  shows "(y dvd x \<and> r = x div y) \<longleftrightarrow> (y dvd x \<and> r * y = x)"
proof
  assume "y dvd x \<and> r = x div y"
  then show "y dvd x \<and> r * y = x" by simp
next
  assume a: "y dvd x \<and> r * y = x"
  then have "x div y = r" using assms by (metis nonzero_mult_div_cancel_right less_irrefl)
  with a show "y dvd x \<and> r = x div y" by simp
qed

lemma operations_no_unit:
  assumes "0 < y" and "y \<le> x" and "(r, op) \<in> set (operations x y)" and "op = ''x'' \<or> op = ''/''"
  shows "x \<noteq> 1 \<and> y \<noteq> 1"
proof -
  from assms(3,4) have "1 < y" unfolding operations_mem by auto
  with assms(2) show ?thesis by simp
qed

text \<open>
  C2. For positive integers \<open>x \<ge> y\<close> the pairs yielded by \<^verbatim>\<open>operations\<close> are,
  without repetition, exactly: the sum always; the difference iff \<open>x > y\<close>; the
  product iff both exceed 1; the exact quotient iff \<open>y > 1\<close> and \<open>y\<close> divides
  \<open>x\<close>. So a product or a quotient never has an operand equal to 1, every
  result (a difference too) is positive, and \<^verbatim>\<open>generate\<close> calls \<^verbatim>\<open>operations\<close> on
  the larger and the smaller of the two results.
\<close>

theorem operations_exact:
  assumes "0 < y" and "y \<le> x"
  shows "distinct (operations x y)
    \<and> (\<forall>r op. (r, op) \<in> set (operations x y) \<longleftrightarrow>
          (op = ''+'' \<and> r = x + y)
        \<or> (op = ''-'' \<and> r = x - y \<and> y < x)
        \<or> (op = ''x'' \<and> r = x * y \<and> 1 < x \<and> 1 < y)
        \<or> (op = ''/'' \<and> 1 < y \<and> y dvd x \<and> r * y = x))
    \<and> (\<forall>r op. (r, op) \<in> set (operations x y) \<and> (op = ''x'' \<or> op = ''/'')
          \<longrightarrow> x \<noteq> 1 \<and> y \<noteq> 1)
    \<and> (\<forall>r op. (r, op) \<in> set (operations x y) \<longrightarrow> 0 < r)
    \<and> map result (generate ca cb) =
        map fst (operations (max (result ca) (result cb)) (min (result ca) (result cb)))"
proof (intro conjI allI impI)
  show "distinct (operations x y)" by (rule operations_distinct)
next
  fix r op
  show "(r, op) \<in> set (operations x y) \<longleftrightarrow>
          (op = ''+'' \<and> r = x + y)
        \<or> (op = ''-'' \<and> r = x - y \<and> y < x)
        \<or> (op = ''x'' \<and> r = x * y \<and> 1 < x \<and> 1 < y)
        \<or> (op = ''/'' \<and> 1 < y \<and> y dvd x \<and> r * y = x)"
    unfolding operations_mem [of r op x y] exact_quotient [OF assms(1), of x r] ..
next
  fix r op
  assume "(r, op) \<in> set (operations x y) \<and> (op = ''x'' \<or> op = ''/'')"
  then show "x \<noteq> 1" using operations_no_unit [OF assms, of r op] by simp
next
  fix r op
  assume "(r, op) \<in> set (operations x y) \<and> (op = ''x'' \<or> op = ''/'')"
  then show "y \<noteq> 1" using operations_no_unit [OF assms, of r op] by simp
next
  fix r op
  assume "(r, op) \<in> set (operations x y)"
  then show "0 < r" by (rule operations_positive [OF assms])
next
  show "map result (generate ca cb) =
        map fst (operations (max (result ca) (result cb)) (min (result ca) (result cb)))"
    by (rule generate_results)
qed

theorem operations_exact_witness:
  "(0::int) < 3 \<and> (3::int) \<le> 6
    \<and> distinct (operations 6 3)
    \<and> (18, ''x'') \<in> set (operations 6 3)
    \<and> (2, ''/'') \<in> set (operations 6 3)"
proof -
  have h1: "(0::int) < 3" and h2: "(3::int) \<le> 6" by simp_all
  note t = operations_exact [OF h1 h2]
  have a: "distinct (operations 6 3)" using t by (rule conjunct1)
  have b: "(18, ''x'') \<in> set (operations 6 3)" "(2, ''/'') \<in> set (operations 6 3)"
    by (simp_all add: operations_def)
  show ?thesis using h1 h2 a b by (intro conjI)
qed

section \<open>The complement of a selection\<close>

lemma subseq_mset_subseteq: "subseq xs ys \<Longrightarrow> mset xs \<subseteq># mset ys"
proof (induction ys arbitrary: xs)
  case Nil
  then show ?case by simp
next
  case (Cons y ys)
  show ?case
  proof (cases xs)
    case Nil
    then show ?thesis by simp
  next
    case (Cons x xs')
    show ?thesis
    proof (cases "x = y")
      case True
      with Cons Cons.prems have "subseq xs' ys" by simp
      then have "mset xs' \<subseteq># mset ys" by (rule Cons.IH)
      with True Cons show ?thesis by simp
    next
      case False
      with Cons Cons.prems have "subseq xs ys" by simp
      then have "mset xs \<subseteq># mset ys" by (rule Cons.IH)
      then show ?thesis
        by (simp add: subseteq_mset_def le_SucI)
    qed
  qed
qed

lemma mset_diff_skip:
  "B \<subseteq># A \<Longrightarrow> add_mset a A - B = add_mset a (A - B)"
  by (metis add_mset_add_single subset_mset.add_diff_assoc2)

lemma filtering_subseq: "subseq (filtering parent sub) parent"
  by (induction parent sub rule: filtering.induct) auto

lemma filtering_mset:
  "subseq sub parent \<Longrightarrow> mset (filtering parent sub) = mset parent - mset sub"
proof (induction parent sub rule: filtering.induct)
  case (3 n ns k ks)
  show ?case
  proof (cases "n = k")
    case True
    with 3 show ?thesis by simp
  next
    case False
    with 3 have s: "subseq (k # ks) ns" by simp
    then have "mset (k # ks) \<subseteq># mset ns" by (rule subseq_mset_subseteq)
    then have "add_mset n (mset ns) - mset (k # ks) = add_mset n (mset ns - mset (k # ks))"
      by (rule mset_diff_skip)
    with 3 False s show ?thesis by simp
  qed
qed simp_all

lemma filtering_length:
  "subseq sub parent \<Longrightarrow> length (filtering parent sub) + length sub = length parent"
  by (induction parent sub rule: filtering.induct) (auto split: if_splits)

text \<open>
  C7. When \<open>sub\<close> occurs in order as a subsequence of \<open>parent\<close>, \<^verbatim>\<open>filtering\<close>
  returns the multiset difference of \<open>parent\<close> and \<open>sub\<close>, one occurrence
  consumed per value of \<open>sub\<close>, as a subsequence of \<open>parent\<close> (the remaining
  elements keep their order); filtering (4,2,1,1) by (1,) yields (4,2,1).
\<close>

theorem filtering_complement:
  assumes "subseq sub parent"
  shows "mset (filtering parent sub) = mset parent - mset sub
    \<and> subseq (filtering parent sub) parent
    \<and> filtering [4, 2, 1, 1] [1] = [4, 2, 1]"
  using filtering_mset [OF assms] filtering_subseq by simp

theorem filtering_complement_witness:
  "subseq [3, 1] [3, 3, 2, 1 :: int]
    \<and> mset (filtering [3, 3, 2, 1] [3, 1]) = mset [3, 3, 2, 1] - mset [3, 1]
    \<and> filtering [3, 3, 2, 1] [3, 1] = [3, 2]"
  using filtering_complement [of "[3, 1]" "[3, 3, 2, 1]"] by simp

section \<open>Selections, lookups and the partition loops\<close>

lemma combinations_subseq:
  "ys \<in> set (combinations xs r) \<Longrightarrow> subseq ys xs \<and> length ys = r"
  by (induction xs r arbitrary: ys rule: combinations.induct) auto

lemma subseq_in_combinations:
  "subseq ys xs \<Longrightarrow> ys \<in> set (combinations xs (length ys))"
proof (induction xs arbitrary: ys)
  case Nil
  then have "ys = []" by simp
  then show ?case by simp
next
  case (Cons x xs)
  show ?case
  proof (cases ys)
    case Nil
    then show ?thesis by simp
  next
    case (Cons y ys')
    show ?thesis
    proof (cases "y = x")
      case True
      with Cons Cons.prems have "subseq ys' xs" by simp
      then have "ys' \<in> set (combinations xs (length ys'))" by (rule Cons.IH)
      with True Cons show ?thesis by simp
    next
      case False
      with Cons Cons.prems have "subseq ys xs" by simp
      then have "ys \<in> set (combinations xs (length ys))" by (rule Cons.IH)
      with Cons show ?thesis by simp
    qed
  qed
qed

lemma zip_longest_Nil2: "zip_longest xs [] = map (\<lambda>x. (Some x, None)) xs"
  by (induction xs) simp_all

lemma zip_longest_single:
  "zip_longest (x # xs) [l] = (Some x, Some l) # map (\<lambda>x. (Some x, None)) xs"
  by (simp add: zip_longest_Nil2)

lemma paired_from_set:
  "(n1, n2) \<in> set (paired_from nums limit cnt cs) \<Longrightarrow> n1 \<in> set cs \<and> n2 = filtering nums n1"
  by (induction cs arbitrary: cnt) (auto split: if_splits)

lemma lookup_Inr: "lookup tab key = Inr g \<longleftrightarrow> map_of tab key = Some g"
  by (simp add: lookup_def split: option.splits)

lemma pairs_loop_set:
  "pairs_loop tab pairs uniq = Inr (ps, u) \<Longrightarrow> (g1, g2) \<in> set ps \<Longrightarrow>
     \<exists>n1 n2. (n1, n2) \<in> set pairs \<and> map_of tab n1 = Some g1 \<and> map_of tab n2 = Some g2"
proof (induction tab pairs uniq arbitrary: ps u rule: pairs_loop.induct)
  case (1 tab uniq)
  then show ?case by simp
next
  case (2 tab numbers1 numbers2 rest uniq)
  show ?case
  proof (cases "numbers1 \<in> uniq")
    case True
    with 2 show ?thesis by auto
  next
    case False
    with "2.prems"(1) obtain group1 group2 ps' where
      l1: "lookup tab numbers1 = Inr group1" and l2: "lookup tab numbers2 = Inr group2"
      and r: "pairs_loop tab rest (insert numbers1 uniq) = Inr (ps', u)"
      and ps: "ps = (group1, group2) # ps'"
      by (auto split: sum.splits)
    show ?thesis
    proof (cases "(g1, g2) = (group1, group2)")
      case True
      with l1 l2 show ?thesis by (auto simp: lookup_Inr)
    next
      case neq: False
      with ps "2.prems"(2) have "(g1, g2) \<in> set ps'" by auto
      from "2.IH"(2) [OF False l1 l2 r this] show ?thesis by auto
    qed
  qed
qed

lemma pairs_loop_ok:
  "\<forall>(n1, n2) \<in> set pairs. map_of tab n1 \<noteq> None \<and> map_of tab n2 \<noteq> None \<Longrightarrow>
     \<exists>r. pairs_loop tab pairs uniq = Inr r"
proof (induction tab pairs uniq rule: pairs_loop.induct)
  case (1 tab uniq)
  then show ?case by simp
next
  case (2 tab numbers1 numbers2 rest uniq)
  show ?case
  proof (cases "numbers1 \<in> uniq")
    case True
    with 2 show ?thesis by auto
  next
    case False
    from "2.prems" obtain group1 group2 where
      l1: "lookup tab numbers1 = Inr group1" and l2: "lookup tab numbers2 = Inr group2"
      by (auto simp: lookup_Inr)
    from "2.prems" have "\<forall>(n1, n2) \<in> set rest. map_of tab n1 \<noteq> None \<and> map_of tab n2 \<noteq> None"
      by simp
    from "2.IH"(2) [OF False l1 l2 this] obtain r where
      "pairs_loop tab rest (insert numbers1 uniq) = Inr r" by blast
    with False l1 l2 show ?thesis by (cases r) simp
  qed
qed

lemma sizes_loop_set:
  "sizes_loop nums tab mls uniq = Inr ps \<Longrightarrow> (g1, g2) \<in> set ps \<Longrightarrow>
     \<exists>m l n1. (Some m, l) \<in> set mls \<and> n1 \<in> set (combinations nums m)
        \<and> map_of tab n1 = Some g1 \<and> map_of tab (filtering nums n1) = Some g2"
proof (induction nums tab mls uniq arbitrary: ps rule: sizes_loop.induct)
  case (1 nums tab uniq)
  then show ?case by simp
next
  case (2 nums tab m limit rest uniq)
  from "2.prems"(1) obtain pairs ps1 uniq' ps2 where
    pc: "paired_combinations nums m (case limit of None \<Rightarrow> None | Some l \<Rightarrow> l) = Inr pairs"
    and pl: "pairs_loop tab pairs uniq = Inr (ps1, uniq')"
    and sl: "sizes_loop nums tab rest uniq' = Inr ps2"
    and ps: "ps = ps1 @ ps2"
    by (auto split: sum.splits)
  from pc obtain r where m: "m = Some r"
    and pairs: "pairs = paired_from nums (case limit of None \<Rightarrow> None | Some l \<Rightarrow> l) 1 (combinations nums r)"
    by (auto simp: paired_combinations_def split: option.splits)
  from ps "2.prems"(2) consider "(g1, g2) \<in> set ps1" | "(g1, g2) \<in> set ps2" by auto
  then show ?case
  proof cases
    case 1
    from pairs_loop_set [OF pl 1] obtain n1 n2 where
      "(n1, n2) \<in> set pairs" "map_of tab n1 = Some g1" "map_of tab n2 = Some g2" by blast
    with pairs paired_from_set [of n1 n2 nums _ 1 "combinations nums r"] m
    show ?thesis by auto
  next
    case 2
    from "2.IH" [OF pc pl refl sl 2] show ?thesis by auto
  qed
qed

section \<open>Scenarios and the scanning loop\<close>

text \<open>
  C3 (as stated, refuted). For target 15 and numbers (7,5,3) the expression
  \<^verbatim>\<open>(5 + 7) + 3\<close> named by the scenario is not among the results: \<^verbatim>\<open>generate\<close>
  puts the operand with the larger result first.
\<close>

theorem scenario_A_counterexample:
  "\<not> ''(5 + 7) + 3'' \<in> set (map expr
      (case countdown_solver 15 [7, 5, 3] of Inl e \<Rightarrow> [] | Inr (d, rs) \<Rightarrow> rs))"
  by code_simp

text \<open>
  C3 (amended). For target 15 and numbers (7,5,3) the minimal difference is 0
  and the result list is exactly \<^verbatim>\<open>5 x 3\<close> from the group of size 2, followed by
  \<^verbatim>\<open>(7 + 5) + 3\<close>, \<^verbatim>\<open>(7 + 3) + 5\<close> and \<^verbatim>\<open>(5 + 3) + 7\<close> from the group of size 3.
\<close>

theorem scenario_A:
  "countdown_solver 15 [7, 5, 3] = Inr (0,
     [\<lparr>expr = ''5 x 3'', result = 15, is_singleton = False\<rparr>,
      \<lparr>expr = ''(7 + 5) + 3'', result = 15, is_singleton = False\<rparr>,
      \<lparr>expr = ''(7 + 3) + 5'', result = 15, is_singleton = False\<rparr>,
      \<lparr>expr = ''(5 + 3) + 7'', result = 15, is_singleton = False\<rparr>])"
  by code_simp

text \<open>
  C4 (the code at the failing input). The running minimum starts at the target
  itself, not at its absolute value: for target -5 and the single number 1 no
  difference is below -5, so the solver reports the difference -5 and no
  result.
\<close>

theorem negative_target_difference:
  "countdown_solver (- 5) [1] = Inr (- 5, []) \<and> scan (- 5) [] = (- 5, [])"
  by code_simp

text \<open>
  C6 (the code at the failing input). The group (3,3,2,1) stores the partition
  ((3,2),(3,1)) and its swap ((3,1),(3,2)): the first half of the selections of
  size 2 holds both (3,2) and (3,1), each the complement of the other.
\<close>

theorem swapped_partitions_stored:
  "map_sum id (\<lambda>tab. map_option (\<lambda>g. map (\<lambda>(a, b). (numbers a, numbers b)) (partitions g))
       (map_of tab [3, 3, 2, 1])) (unique_groups [3, 3, 2, 1])
   = Inr (Some [([3, 3], [2, 1]), ([3, 2], [3, 1]), ([3, 1], [3, 2]),
      ([3, 3, 2], [1]), ([3, 3, 1], [2]), ([3, 2, 1], [3])])"
  by code_simp

lemma scan_step_skip:
  "sd < \<bar>result c - target\<bar> \<Longrightarrow> scan_step target c (sd, best) = (sd, best)"
  by (simp add: scan_step_def Let_def)

lemma scan_fold_skip:
  "\<forall>c \<in> set calcs. sd < \<bar>result c - target\<bar> \<Longrightarrow>
     fold (scan_step target) calcs (sd, best) = (sd, best)"
  by (induction calcs) (simp_all add: scan_step_skip)

lemma solutions_single_2:
  "Solutions_init (rev (sort [2])) = Inr \<lparr>all_numbers = [2], size_solutions = 1,
    all_groups = [([2], Group [2] 1 [] [\<lparr>expr = ''2'', result = 2, is_singleton = True\<rparr>])]\<rparr>"
  by code_simp

section \<open>Totality of the partition builder\<close>

lemma sizes_loop_ok:
  "\<forall>(m, l) \<in> set mls. \<exists>r. m = Some r \<and>
      (\<forall>n1 \<in> set (combinations nums r).
          map_of tab n1 \<noteq> None \<and> map_of tab (filtering nums n1) \<noteq> None) \<Longrightarrow>
     \<exists>ps. sizes_loop nums tab mls uniq = Inr ps"
proof (induction mls arbitrary: uniq)
  case Nil
  then show ?case by simp
next
  case (Cons ml mls)
  obtain m limit where ml: "ml = (m, limit)" by (cases ml)
  from Cons.prems ml obtain r where m: "m = Some r"
    and keys: "\<forall>n1 \<in> set (combinations nums r).
          map_of tab n1 \<noteq> None \<and> map_of tab (filtering nums n1) \<noteq> None"
    by auto
  define lim where "lim = (case limit of None \<Rightarrow> None | Some l \<Rightarrow> l)"
  define pairs where "pairs = paired_from nums lim 1 (combinations nums r)"
  have pc: "paired_combinations nums m lim = Inr pairs"
    by (simp add: paired_combinations_def m pairs_def)
  have "\<forall>(n1, n2) \<in> set pairs. map_of tab n1 \<noteq> None \<and> map_of tab n2 \<noteq> None"
    using keys paired_from_set [of _ _ nums lim 1 "combinations nums r"]
    unfolding pairs_def by blast
  from pairs_loop_ok [OF this] obtain ps1 u where
    pl: "pairs_loop tab pairs uniq = Inr (ps1, u)" by (metis surj_pair)
  from Cons.IH [of u] Cons.prems obtain ps2 where
    sl: "sizes_loop nums tab mls u = Inr ps2" by auto
  show ?case using pc pl sl by (simp add: ml lim_def)
qed

lemma partition_set:
  assumes "partition_into_unique_pairs nums tab = Inr ps" and "(g1, g2) \<in> set ps"
  shows "\<exists>n1. subseq n1 nums \<and> (length nums + 1) div 2 \<le> length n1 \<and> length n1 < length nums
      \<and> map_of tab n1 = Some g1 \<and> map_of tab (filtering nums n1) = Some g2"
proof (cases "length nums = 1")
  case True
  with assms show ?thesis by (simp add: partition_into_unique_pairs_def)
next
  case False
  with assms(1) have "sizes_loop nums tab
      (zip_longest [(length nums + 1) div 2..<length nums]
          [halfbinom (int (length nums)) (int (length nums) div 2)]) {} = Inr ps"
    by (simp add: partition_into_unique_pairs_def Let_def)
  from sizes_loop_set [OF this assms(2)] obtain m l n1 where
    ml: "(Some m, l) \<in> set (zip_longest [(length nums + 1) div 2..<length nums]
          [halfbinom (int (length nums)) (int (length nums) div 2)])"
    and n1: "n1 \<in> set (combinations nums m)"
    and g: "map_of tab n1 = Some g1" "map_of tab (filtering nums n1) = Some g2"
    by blast
  have "m \<in> set [(length nums + 1) div 2..<length nums]"
  proof (cases "[(length nums + 1) div 2..<length nums]")
    case Nil
    from ml have False unfolding Nil by simp
    then show ?thesis ..
  next
    case (Cons a as)
    from ml have "m = a \<or> m \<in> set as" unfolding Cons zip_longest_single by auto
    then show ?thesis unfolding Cons by simp
  qed
  with combinations_subseq [OF n1] g show ?thesis by auto
qed

lemma partition_ok:
  assumes "1 \<le> length nums"
    and "\<forall>ys. subseq ys nums \<and> 1 \<le> length ys \<and> length ys < length nums \<longrightarrow> map_of tab ys \<noteq> None"
  shows "\<exists>ps. partition_into_unique_pairs nums tab = Inr ps"
proof (cases "length nums = 1")
  case True
  then show ?thesis by (simp add: partition_into_unique_pairs_def)
next
  case False
  with assms(1) have two: "2 \<le> length nums" by simp
  define lo where "lo = (length nums + 1) div 2"
  have lo: "1 \<le> lo" "lo < length nums" using two by (simp_all add: lo_def)
  then obtain as where range: "[lo..<length nums] = lo # as"
    by (simp add: upt_conv_Cons)
  define l where "l = halfbinom (int (length nums)) (int (length nums) div 2)"
  have "\<forall>(m, l') \<in> set (zip_longest [lo..<length nums] [l]). \<exists>r. m = Some r \<and>
      (\<forall>n1 \<in> set (combinations nums r).
          map_of tab n1 \<noteq> None \<and> map_of tab (filtering nums n1) \<noteq> None)"
  proof (clarify)
    fix m l' assume "(m, l') \<in> set (zip_longest [lo..<length nums] [l])"
    then obtain r where m: "m = Some r" and r: "r \<in> set [lo..<length nums]"
      unfolding range zip_longest_single by auto
    from r lo have rb: "1 \<le> r" "r < length nums" by simp_all
    have "map_of tab n1 \<noteq> None \<and> map_of tab (filtering nums n1) \<noteq> None"
      if "n1 \<in> set (combinations nums r)" for n1
    proof -
      from combinations_subseq [OF that] have s: "subseq n1 nums" and len: "length n1 = r" by simp_all
      from filtering_length [OF s] len rb
      have "1 \<le> length (filtering nums n1)" "length (filtering nums n1) < length nums" by simp_all
      with assms(2) s len rb filtering_subseq [of nums n1] show ?thesis by blast
    qed
    with m show "\<exists>r. m = Some r \<and>
      (\<forall>n1 \<in> set (combinations nums r).
          map_of tab n1 \<noteq> None \<and> map_of tab (filtering nums n1) \<noteq> None)" by blast
  qed
  from sizes_loop_ok [OF this, of "{}"] False show ?thesis
    by (simp add: partition_into_unique_pairs_def Let_def lo_def l_def)
qed

section \<open>The table of groups\<close>

lemma Group_init_Inr:
  "Group_init nums tab = Inr g \<Longrightarrow>
     \<exists>parts. partition_into_unique_pairs nums tab = Inr parts
       \<and> g = Group nums (length nums) parts (perform_calculations nums parts)"
  by (auto simp: Group_init_def split: sum.splits)

lemma Group_init_ok:
  assumes "table_inv nums m tab" and "subseq key nums" and "length key = m" and "1 \<le> m"
  shows "\<exists>g. Group_init key tab = Inr g"
proof -
  have "map_of tab ys \<noteq> None"
    if "subseq ys key \<and> 1 \<le> length ys \<and> length ys < length key" for ys
  proof -
    from that assms(2) have "subseq ys nums" by (meson subseq_order.order_trans)
    with that assms(1,3) show ?thesis unfolding table_inv_def by blast
  qed
  then have "\<forall>ys. subseq ys key \<and> 1 \<le> length ys \<and> length ys < length key
      \<longrightarrow> map_of tab ys \<noteq> None" by blast
  from partition_ok [OF _ this] assms(3,4) obtain ps where
    "partition_into_unique_pairs key tab = Inr ps" by auto
  then show ?thesis by (simp add: Group_init_def)
qed

lemma table_inv_append:
  assumes inv: "table_inv nums m tab" and new: "map_of tab key = None"
    and key: "subseq key nums" "length key = m" "1 \<le> m"
    and g: "numbers g = key" "group_size g = length key"
  shows "table_inv nums m (tab @ [(key, g)])"
proof -
  from new have "key \<notin> set (map fst tab)" by (simp add: map_of_eq_None_iff)
  with inv have d: "distinct (map fst (tab @ [(key, g)]))"
    by (simp add: table_inv_def)
  have e: "\<forall>(key', g') \<in> set (tab @ [(key, g)]). numbers g' = key' \<and> group_size g' = length key'
         \<and> subseq key' nums \<and> 1 \<le> length key' \<and> length key' \<le> m"
    using inv key g by (auto simp: table_inv_def)
  have c: "\<forall>ys. subseq ys nums \<and> 1 \<le> length ys \<and> length ys < m
      \<longrightarrow> map_of (tab @ [(key, g)]) ys \<noteq> None"
    using inv by (auto simp: table_inv_def)
  have "\<forall>x \<in> set (map (\<lambda>(key, g). length key) tab). x \<le> m"
    using inv by (auto simp: table_inv_def)
  with inv key have s: "sorted (map (\<lambda>(key, g). length key) (tab @ [(key, g)]))"
    by (simp add: table_inv_def sorted_append)
  from d e c s show ?thesis unfolding table_inv_def by blast
qed

lemma table_inv_Suc:
  assumes inv: "table_inv nums m tab"
    and all: "\<forall>ys \<in> set (combinations nums m). map_of tab ys \<noteq> None"
  shows "table_inv nums (Suc m) tab"
proof -
  have "map_of tab ys \<noteq> None" if "subseq ys nums \<and> 1 \<le> length ys \<and> length ys < Suc m" for ys
  proof (cases "length ys = m")
    case True
    with that subseq_in_combinations [of ys nums] all show ?thesis by auto
  next
    case False
    with that have "length ys < m" by simp
    with that inv show ?thesis unfolding table_inv_def by blast
  qed
  then have c: "\<forall>ys. subseq ys nums \<and> 1 \<le> length ys \<and> length ys < Suc m
      \<longrightarrow> map_of tab ys \<noteq> None" by blast
  have e: "\<forall>(key, g) \<in> set tab. numbers g = key \<and> group_size g = length key
         \<and> subseq key nums \<and> 1 \<le> length key \<and> length key \<le> Suc m"
    using inv by (auto simp: table_inv_def)
  from inv c e show ?thesis unfolding table_inv_def by blast
qed

lemma groups_loop_inv:
  assumes step: "\<And>key t g. table_inv nums m t \<Longrightarrow> (\<forall>(k', g') \<in> set t. Q k' g') \<Longrightarrow>
        subseq key nums \<Longrightarrow> length key = m \<Longrightarrow> Group_init key t = Inr g \<Longrightarrow> Q key g"
    and m: "1 \<le> m"
  shows "table_inv nums m tab \<Longrightarrow> (\<forall>(k, g) \<in> set tab. Q k g) \<Longrightarrow>
     set cs \<subseteq> set (combinations nums m) \<Longrightarrow>
     \<exists>tab'. groups_loop cs tab = Inr tab' \<and> table_inv nums m tab'
       \<and> (\<forall>(k, g) \<in> set tab'. Q k g)
       \<and> (\<forall>ys. ys \<in> set cs \<or> map_of tab ys \<noteq> None \<longrightarrow> map_of tab' ys \<noteq> None)"
proof (induction cs arbitrary: tab)
  case Nil
  then show ?case by simp
next
  case (Cons key cs)
  from Cons.prems(3) have sub: "set cs \<subseteq> set (combinations nums m)"
    and "key \<in> set (combinations nums m)" by simp_all
  then have key: "subseq key nums" "length key = m"
    using combinations_subseq by blast+
  show ?case
  proof (cases "map_of tab key = None")
    case False
    from Cons.IH [OF Cons.prems(1,2) sub] obtain tab' where
      r: "groups_loop cs tab = Inr tab'" "table_inv nums m tab'" "\<forall>(k, g) \<in> set tab'. Q k g"
      and mono: "\<forall>ys. ys \<in> set cs \<or> map_of tab ys \<noteq> None \<longrightarrow> map_of tab' ys \<noteq> None"
      by blast
    from mono False have "\<forall>ys. ys \<in> set (key # cs) \<or> map_of tab ys \<noteq> None
        \<longrightarrow> map_of tab' ys \<noteq> None" by auto
    with r False show ?thesis by auto
  next
    case True
    from Group_init_ok [OF Cons.prems(1) key m] obtain g where gi: "Group_init key tab = Inr g" ..
    from Group_init_Inr [OF gi] have g: "numbers g = key" "group_size g = length key" by auto
    have inv': "table_inv nums m (tab @ [(key, g)])"
      by (rule table_inv_append [OF Cons.prems(1) True key m g])
    have "Q key g" by (rule step [OF Cons.prems(1,2) key gi])
    with Cons.prems(2) have q': "\<forall>(k, g) \<in> set (tab @ [(key, g)]). Q k g" by auto
    from Cons.IH [OF inv' q' sub] obtain tab' where
      r: "groups_loop cs (tab @ [(key, g)]) = Inr tab'" "table_inv nums m tab'"
         "\<forall>(k, g) \<in> set tab'. Q k g"
      and mono: "\<forall>ys. ys \<in> set cs \<or> map_of (tab @ [(key, g)]) ys \<noteq> None
          \<longrightarrow> map_of tab' ys \<noteq> None"
      by blast
    have "map_of (tab @ [(key, g)]) ys \<noteq> None" if "ys = key \<or> map_of tab ys \<noteq> None" for ys
      using that by auto
    with mono have "\<forall>ys. ys \<in> set (key # cs) \<or> map_of tab ys \<noteq> None
        \<longrightarrow> map_of tab' ys \<noteq> None" by auto
    with r True gi show ?thesis by auto
  qed
qed

lemma unique_groups_from_inv:
  assumes step: "\<And>m' key t g. table_inv nums m' t \<Longrightarrow> (\<forall>(k', g') \<in> set t. Q k' g') \<Longrightarrow>
        subseq key nums \<Longrightarrow> length key = m' \<Longrightarrow> Group_init key t = Inr g \<Longrightarrow> Q key g"
  shows "table_inv nums m tab \<Longrightarrow> (\<forall>(k, g) \<in> set tab. Q k g) \<Longrightarrow> 1 \<le> m \<Longrightarrow>
     \<exists>tab'. unique_groups_from nums [m..<m + d] tab = Inr tab' \<and> table_inv nums (m + d) tab'
       \<and> (\<forall>(k, g) \<in> set tab'. Q k g)"
proof (induction d arbitrary: m tab)
  case 0
  then show ?case by simp
next
  case (Suc d)
  have range: "[m..<m + Suc d] = m # [Suc m..<Suc m + d]"
    by (simp add: upt_conv_Cons)
  have "\<exists>tab'. groups_loop (combinations nums m) tab = Inr tab' \<and> table_inv nums m tab'
       \<and> (\<forall>(k, g) \<in> set tab'. Q k g)
       \<and> (\<forall>ys. ys \<in> set (combinations nums m) \<or> map_of tab ys \<noteq> None
            \<longrightarrow> map_of tab' ys \<noteq> None)"
  proof (rule groups_loop_inv [OF _ Suc.prems(3) Suc.prems(1,2)])
    fix key t g
    assume "table_inv nums m t" "\<forall>(k', g') \<in> set t. Q k' g'" "subseq key nums"
      "length key = m" "Group_init key t = Inr g"
    then show "Q key g" by (rule step)
  next
    show "set (combinations nums m) \<subseteq> set (combinations nums m)" by simp
  qed
  then obtain tab1 where
    r: "groups_loop (combinations nums m) tab = Inr tab1" "table_inv nums m tab1"
       "\<forall>(k, g) \<in> set tab1. Q k g"
    and all: "\<forall>ys. ys \<in> set (combinations nums m) \<or> map_of tab ys \<noteq> None
          \<longrightarrow> map_of tab1 ys \<noteq> None"
    by blast
  from all have "\<forall>ys \<in> set (combinations nums m). map_of tab1 ys \<noteq> None" by blast
  from table_inv_Suc [OF r(2) this] have inv1: "table_inv nums (Suc m) tab1" .
  from Suc.IH [OF inv1 r(3)] obtain tab' where
    "unique_groups_from nums [Suc m..<Suc m + d] tab1 = Inr tab'"
    "table_inv nums (Suc m + d) tab'" "\<forall>(k, g) \<in> set tab'. Q k g" by auto
  with r(1) show ?case unfolding range by auto
qed

lemma unique_groups_inv:
  assumes step: "\<And>m' key t g. table_inv nums m' t \<Longrightarrow> (\<forall>(k', g') \<in> set t. Q k' g') \<Longrightarrow>
        subseq key nums \<Longrightarrow> length key = m' \<Longrightarrow> Group_init key t = Inr g \<Longrightarrow> Q key g"
  shows "\<exists>tab. unique_groups nums = Inr tab \<and> table_inv nums (1 + length nums) tab
       \<and> (\<forall>(k, g) \<in> set tab. Q k g)"
proof -
  have inv0: "table_inv nums 1 []" by (auto simp: table_inv_def)
  have "\<exists>tab'. unique_groups_from nums [1..<1 + length nums] [] = Inr tab'
       \<and> table_inv nums (1 + length nums) tab' \<and> (\<forall>(k, g) \<in> set tab'. Q k g)"
  proof (rule unique_groups_from_inv [OF _ inv0])
    fix m' key t g
    assume "table_inv nums m' t" "\<forall>(k', g') \<in> set t. Q k' g'" "subseq key nums"
      "length key = m'" "Group_init key t = Inr g"
    then show "Q key g" by (rule step)
  qed simp_all
  then show ?thesis by (simp add: unique_groups_def)
qed

section \<open>Every result is positive\<close>

lemma subseq_member: "subseq xs ys \<Longrightarrow> x \<in> set xs \<Longrightarrow> x \<in> set ys"
  by (erule list_emb_set) auto

lemma generate_positive:
  assumes "0 < result a" and "0 < result b" and "c \<in> set (generate a b)"
  shows "0 < result c"
proof -
  from assms(3) have "result c \<in> set (map result (generate a b))" by simp
  then obtain op where
    "(result c, op) \<in> set (operations (max (result a) (result b)) (min (result a) (result b)))"
    unfolding generate_results by auto
  moreover have "0 < min (result a) (result b)" using assms(1,2) by simp
  moreover have "min (result a) (result b) \<le> max (result a) (result b)" by simp
  ultimately show ?thesis using operations_positive by blast
qed

lemma perform_calculations_mem:
  assumes "c \<in> set (perform_calculations nums parts)"
  shows "(length nums = 1 \<and> c = singleton (hd nums))
    \<or> (length nums \<noteq> 1 \<and> (\<exists>g1 g2 c1 c2. (g1, g2) \<in> set parts \<and> c1 \<in> set (calculations g1)
          \<and> c2 \<in> set (calculations g2) \<and> c \<in> set (generate c1 c2)))"
  using assms by (auto simp: perform_calculations_def split: if_splits)

lemma Group_init_calculations:
  assumes inv: "table_inv nums m t" and gi: "Group_init key t = Inr g"
    and c: "c \<in> set (calculations g)"
  shows "(length key = 1 \<and> c = singleton (hd key))
    \<or> (length key \<noteq> 1 \<and> (\<exists>n1 n2 g1 g2 c1 c2. (n1, g1) \<in> set t \<and> (n2, g2) \<in> set t
          \<and> 1 \<le> length n1 \<and> 1 \<le> length n2 \<and> length n1 + length n2 = length key
          \<and> c1 \<in> set (calculations g1) \<and> c2 \<in> set (calculations g2)
          \<and> c \<in> set (generate c1 c2)))"
proof -
  from Group_init_Inr [OF gi] obtain parts where
    p: "partition_into_unique_pairs key t = Inr parts"
    and g: "g = Group key (length key) parts (perform_calculations key parts)" by blast
  from c g have "c \<in> set (perform_calculations key parts)" by simp
  from perform_calculations_mem [OF this] show ?thesis
  proof
    assume "length key = 1 \<and> c = singleton (hd key)"
    then show ?thesis by simp
  next
    assume a: "length key \<noteq> 1 \<and> (\<exists>g1 g2 c1 c2. (g1, g2) \<in> set parts \<and> c1 \<in> set (calculations g1)
          \<and> c2 \<in> set (calculations g2) \<and> c \<in> set (generate c1 c2))"
    then obtain g1 g2 c1 c2 where
      gs: "(g1, g2) \<in> set parts" and cs: "c1 \<in> set (calculations g1)"
      "c2 \<in> set (calculations g2)" "c \<in> set (generate c1 c2)" by blast
    from partition_set [OF p gs] obtain n1 where
      n1: "subseq n1 key" "(length key + 1) div 2 \<le> length n1" "length n1 < length key"
      and m1: "map_of t n1 = Some g1" and m2: "map_of t (filtering key n1) = Some g2" by blast
    from filtering_length [OF n1(1)] n1(2,3)
    have len: "1 \<le> length n1" "1 \<le> length (filtering key n1)"
      "length n1 + length (filtering key n1) = length key" by simp_all
    from m1 m2 have "(n1, g1) \<in> set t" "(filtering key n1, g2) \<in> set t"
      by (simp_all add: map_of_SomeD)
    with len cs a show ?thesis by blast
  qed
qed

lemma positive_step:
  assumes pos: "\<forall>n \<in> set nums. 0 < n"
    and inv: "table_inv nums m t"
    and q: "\<forall>(k', g') \<in> set t. \<forall>c \<in> set (calculations g'). 0 < result c"
    and key: "subseq key nums" "length key = m"
    and gi: "Group_init key t = Inr g"
  shows "\<forall>c \<in> set (calculations g). 0 < result c"
proof
  fix c assume "c \<in> set (calculations g)"
  from Group_init_calculations [OF inv gi this] show "0 < result c"
  proof
    assume a: "length key = 1 \<and> c = singleton (hd key)"
    then have "hd key \<in> set key" by (cases key) simp_all
    with key(1) have "hd key \<in> set nums" by (rule subseq_member)
    with pos a show ?thesis by (simp add: singleton_def)
  next
    assume "length key \<noteq> 1 \<and> (\<exists>n1 n2 g1 g2 c1 c2. (n1, g1) \<in> set t \<and> (n2, g2) \<in> set t
          \<and> 1 \<le> length n1 \<and> 1 \<le> length n2 \<and> length n1 + length n2 = length key
          \<and> c1 \<in> set (calculations g1) \<and> c2 \<in> set (calculations g2)
          \<and> c \<in> set (generate c1 c2))"
    then obtain n1 n2 g1 g2 c1 c2 where
      "(n1, g1) \<in> set t" "(n2, g2) \<in> set t" "c1 \<in> set (calculations g1)"
      "c2 \<in> set (calculations g2)" and c: "c \<in> set (generate c1 c2)" by blast
    with q have "0 < result c1" "0 < result c2" by blast+
    then show ?thesis using c by (rule generate_positive)
  qed
qed

section \<open>The scanning loop keeps the calculations at the minimum\<close>

lemma scan_step_filter:
  assumes "best = filter (\<lambda>c. \<bar>result c - target\<bar> = sd) xs"
    and "\<forall>c \<in> set xs. sd \<le> \<bar>result c - target\<bar>"
    and "scan_step target y (sd, best) = (sd', best')"
  shows "best' = filter (\<lambda>c. \<bar>result c - target\<bar> = sd') (xs @ [y])
    \<and> (\<forall>c \<in> set (xs @ [y]). sd' \<le> \<bar>result c - target\<bar>)"
proof -
  consider (less) "\<bar>result y - target\<bar> < sd" | (eq) "\<bar>result y - target\<bar> = sd"
    | (more) "sd < \<bar>result y - target\<bar>" by linarith
  then show ?thesis
  proof cases
    case less
    with assms(3) have r: "sd' = \<bar>result y - target\<bar>" "best' = [y]"
      by (simp_all add: scan_step_def Let_def)
    from less assms(2) have "filter (\<lambda>c. \<bar>result c - target\<bar> = sd') xs = []"
      unfolding r by (auto simp: filter_empty_conv)
    with r less assms(2) show ?thesis by auto
  next
    case eq
    with assms(3) have "sd' = sd" "best' = best @ [y]"
      by (simp_all add: scan_step_def Let_def)
    with eq assms(1,2) show ?thesis by auto
  next
    case more
    with assms(3) have "sd' = sd" "best' = best"
      by (simp_all add: scan_step_def Let_def)
    with more assms(1,2) show ?thesis by auto
  qed
qed

lemma scan_fold_filter:
  "best = filter (\<lambda>c. \<bar>result c - target\<bar> = sd) xs \<Longrightarrow>
   \<forall>c \<in> set xs. sd \<le> \<bar>result c - target\<bar> \<Longrightarrow>
   fold (scan_step target) ys (sd, best) = (sd', best') \<Longrightarrow>
     best' = filter (\<lambda>c. \<bar>result c - target\<bar> = sd') (xs @ ys)
     \<and> (\<forall>c \<in> set (xs @ ys). sd' \<le> \<bar>result c - target\<bar>)"
proof (induction ys arbitrary: xs sd best)
  case Nil
  then show ?case by auto
next
  case (Cons y ys)
  obtain sd1 best1 where st: "scan_step target y (sd, best) = (sd1, best1)"
    by (cases "scan_step target y (sd, best)")
  from scan_step_filter [OF Cons.prems(1,2) st]
  have a: "best1 = filter (\<lambda>c. \<bar>result c - target\<bar> = sd1) (xs @ [y])"
    and b: "\<forall>c \<in> set (xs @ [y]). sd1 \<le> \<bar>result c - target\<bar>" by simp_all
  from Cons.prems(3) st have "fold (scan_step target) ys (sd1, best1) = (sd', best')" by simp
  from Cons.IH [OF a b this] show ?case by simp
qed

lemma scan_filter:
  assumes "scan target calcs = (d, rs)"
  shows "rs = filter (\<lambda>c. \<bar>result c - target\<bar> = d) calcs"
proof -
  have "[] = filter (\<lambda>c. \<bar>result c - target\<bar> = target) []" by simp
  from scan_fold_filter [OF this _ assms [unfolded scan_def]] show ?thesis by simp
qed

lemma unique_groups_positive:
  assumes "\<forall>n \<in> set nums. 0 < n"
  shows "\<exists>tab. unique_groups nums = Inr tab
    \<and> (\<forall>(key, g) \<in> set tab. \<forall>c \<in> set (calculations g). 0 < result c)"
proof -
  have "\<exists>tab. unique_groups nums = Inr tab \<and> table_inv nums (1 + length nums) tab
       \<and> (\<forall>(k, g) \<in> set tab. \<forall>c \<in> set (calculations g). 0 < result c)"
  proof (rule unique_groups_inv)
    fix m' key t g
    assume "table_inv nums m' t"
      "\<forall>(k', g') \<in> set t. \<forall>c \<in> set (calculations g'). 0 < result c"
      "subseq key nums" "length key = m'" "Group_init key t = Inr g"
    with assms show "\<forall>c \<in> set (calculations g). 0 < result c" by (rule positive_step)
  qed
  then show ?thesis by blast
qed

text \<open>
  C1. On source numbers that are all positive the engine raises no error, and
  every calculation of every group (the singletons and the combined ones, so
  everything \<^verbatim>\<open>walk\<close> yields and every reported result) has a result above zero.
  Results are integers by their type; \<^verbatim>\<open>operations\<close> divides only exactly.
\<close>

theorem positivity:
  assumes "\<forall>n \<in> set unsorted_numbers. 0 < n"
  shows "\<exists>s d rs. Solutions_init (rev (sort unsorted_numbers)) = Inr s
    \<and> (\<forall>(key, g) \<in> set (all_groups s). \<forall>c \<in> set (calculations g). 0 < result c)
    \<and> (\<forall>c \<in> set (walk s). 0 < result c)
    \<and> countdown_solver target unsorted_numbers = Inr (d, rs)
    \<and> (\<forall>c \<in> set rs. 0 < result c)"
proof -
  define nums where "nums = rev (sort unsorted_numbers)"
  from assms have "\<forall>n \<in> set nums. 0 < n" by (simp add: nums_def)
  from unique_groups_positive [OF this] obtain tab where
    tab: "unique_groups nums = Inr tab"
    and pos: "\<forall>(key, g) \<in> set tab. \<forall>c \<in> set (calculations g). 0 < result c" by blast
  define s where "s = \<lparr>all_numbers = nums, size_solutions = length nums, all_groups = tab\<rparr>"
  have s: "Solutions_init nums = Inr s" by (simp add: Solutions_init_def tab s_def)
  have w: "\<forall>c \<in> set (walk s). 0 < result c" using pos by (auto simp: walk_def s_def)
  obtain d rs where sc: "scan target (walk s) = (d, rs)" by (cases "scan target (walk s)")
  from scan_filter [OF sc] w have r: "\<forall>c \<in> set rs. 0 < result c" by simp
  have "countdown_solver target unsorted_numbers = Inr (d, rs)"
    using s sc by (simp add: countdown_solver_def nums_def [symmetric])
  with s pos w r show ?thesis unfolding nums_def s_def by auto
qed

theorem positivity_witness:
  "(0::int) < 3 \<and> (0::int) < 5
    \<and> (\<exists>s d rs. Solutions_init (rev (sort [3, 5])) = Inr s
          \<and> countdown_solver 4 [3, 5] = Inr (d, rs))"
proof -
  have h: "\<forall>n \<in> set [3, 5 :: int]. 0 < n" by simp
  from positivity [OF h, of 4] show ?thesis by auto
qed

section \<open>Blanks count the numbers of an expression\<close>

lemma blanks_Nil [simp]: "blanks [] = 0"
  by (simp add: blanks_def)

lemma blanks_append [simp]: "blanks (xs @ ys) = blanks xs + blanks ys"
  by (simp add: blanks_def)

lemma blanks_Cons: "blanks (c # cs) = (if c = CHR '' '' then 1 else 0) + blanks cs"
  by (simp add: blanks_def)

lemma digit_char_not_blank: "d < 10 \<Longrightarrow> digit_char d \<noteq> CHR '' ''"
proof -
  assume "d < 10"
  then have "''0123456789'' ! d \<in> set ''0123456789''" by (intro nth_mem) simp
  then show ?thesis unfolding digit_char_def by auto
qed

lemma blanks_digits: "blanks (digits n) = 0"
proof (induction n rule: digits.induct)
  case (1 n)
  show ?case
  proof (cases "n < 10")
    case True
    then show ?thesis
      by (subst digits.simps) (simp add: blanks_Cons digit_char_not_blank)
  next
    case False
    then have "blanks (digits (n div 10)) = 0" by (rule "1.IH")
    with False show ?thesis
      by (subst digits.simps) (simp add: blanks_Cons digit_char_not_blank)
  qed
qed

lemma blanks_str: "blanks (str n) = 0"
  by (simp add: str_def blanks_Cons blanks_digits)

lemma blanks_paren: "blanks (paren c) = blanks (expr c)"
  by (simp add: paren_def blanks_Cons)

lemma operations_blanks: "(r, op) \<in> set (operations x y) \<Longrightarrow> blanks op = 0"
  by (auto simp: operations_def blanks_Cons split: if_splits)

lemma generate_blanks:
  assumes "c \<in> set (generate a b)"
  shows "blanks (expr c) = blanks (expr a) + blanks (expr b) + 2"
proof -
  define ca where "ca = (if result a < result b then b else a)"
  define cb where "cb = (if result a < result b then a else b)"
  have "generate a b = map (\<lambda>(r, op).
                \<lparr>expr = paren ca @ '' '' @ op @ '' '' @ paren cb,
                 result = r, is_singleton = False\<rparr>)
             (operations (result ca) (result cb))"
    by (simp add: generate_def ca_def cb_def)
  with assms obtain r op where
    op: "(r, op) \<in> set (operations (result ca) (result cb))"
    and c: "c = \<lparr>expr = paren ca @ '' '' @ op @ '' '' @ paren cb,
                 result = r, is_singleton = False\<rparr>"
    by auto
  from op have "blanks op = 0" by (rule operations_blanks)
  with c have "blanks (expr c) = blanks (expr ca) + blanks (expr cb) + 2"
    by (simp add: blanks_paren blanks_Cons)
  then show ?thesis by (simp add: ca_def cb_def)
qed

lemma blanks_step:
  assumes inv: "table_inv nums m t"
    and q: "\<forall>(k', g') \<in> set t. \<forall>c \<in> set (calculations g'). blanks (expr c) = 2 * (length k' - 1)"
    and gi: "Group_init key t = Inr g"
  shows "\<forall>c \<in> set (calculations g). blanks (expr c) = 2 * (length key - 1)"
proof
  fix c assume "c \<in> set (calculations g)"
  from Group_init_calculations [OF inv gi this]
  show "blanks (expr c) = 2 * (length key - 1)"
  proof
    assume "length key = 1 \<and> c = singleton (hd key)"
    then show ?thesis by (simp add: singleton_def blanks_str)
  next
    assume "length key \<noteq> 1 \<and> (\<exists>n1 n2 g1 g2 c1 c2. (n1, g1) \<in> set t \<and> (n2, g2) \<in> set t
          \<and> 1 \<le> length n1 \<and> 1 \<le> length n2 \<and> length n1 + length n2 = length key
          \<and> c1 \<in> set (calculations g1) \<and> c2 \<in> set (calculations g2)
          \<and> c \<in> set (generate c1 c2))"
    then obtain n1 n2 g1 g2 c1 c2 where
      t: "(n1, g1) \<in> set t" "(n2, g2) \<in> set t"
      and len: "1 \<le> length n1" "1 \<le> length n2" "length n1 + length n2 = length key"
      and cs: "c1 \<in> set (calculations g1)" "c2 \<in> set (calculations g2)"
      and c: "c \<in> set (generate c1 c2)" by blast
    from q t(1) cs(1) have "blanks (expr c1) = 2 * (length n1 - 1)" by auto
    moreover from q t(2) cs(2) have "blanks (expr c2) = 2 * (length n2 - 1)" by auto
    ultimately have "blanks (expr c1) = 2 * (length n1 - 1)" "blanks (expr c2) = 2 * (length n2 - 1)"
      by simp_all
    with generate_blanks [OF c] len show ?thesis by simp
  qed
qed

lemma unique_groups_blanks:
  "\<exists>tab. unique_groups nums = Inr tab \<and> table_inv nums (1 + length nums) tab
    \<and> (\<forall>(key, g) \<in> set tab. \<forall>c \<in> set (calculations g). blanks (expr c) = 2 * (length key - 1))"
proof (rule unique_groups_inv)
  fix m' key t g
  assume "table_inv nums m' t"
    "\<forall>(k', g') \<in> set t. \<forall>c \<in> set (calculations g'). blanks (expr c) = 2 * (length k' - 1)"
    "subseq key nums" "length key = m'" "Group_init key t = Inr g"
  then show "\<forall>c \<in> set (calculations g). blanks (expr c) = 2 * (length key - 1)"
    by (intro blanks_step)
qed

lemma numbers_used_of_blanks: "1 \<le> k \<Longrightarrow> blanks e = 2 * (k - 1) \<Longrightarrow> numbers_used e = k"
  by (simp add: numbers_used_def)

lemma sorted_concat_groups:
  assumes "\<forall>(key, g) \<in> set tab. \<forall>c \<in> set (calculations g). f c = length key"
    and "sorted (map (\<lambda>(key, g). length key) tab)"
  shows "sorted (map f (concat (map (\<lambda>(key, g). calculations g) tab)))"
  using assms
proof (induction tab)
  case Nil
  then show ?case by simp
next
  case (Cons kg tab)
  obtain key g where kg: "kg = (key, g)" by (cases kg)
  from Cons.prems kg have
    head: "\<forall>c \<in> set (calculations g). f c = length key"
    and rest: "\<forall>(key', g') \<in> set tab. \<forall>c \<in> set (calculations g'). f c = length key'"
    and le: "\<forall>(key', g') \<in> set tab. length key \<le> length key'"
    and srt: "sorted (map (\<lambda>(key, g). length key) tab)"
    by auto
  from Cons.IH [OF rest srt]
  have ih: "sorted (map f (concat (map (\<lambda>(key, g). calculations g) tab)))" .
  have a: "sorted (map f (calculations g))"
  proof -
    from head have "map f (calculations g) = replicate (length (calculations g)) (length key)"
      by (simp add: map_replicate_const [symmetric] cong: map_cong)
    then show ?thesis by simp
  qed
  have b: "\<forall>x \<in> set (map f (calculations g)).
      \<forall>y \<in> set (map f (concat (map (\<lambda>(key, g). calculations g) tab))). x \<le> y"
  proof (intro ballI)
    fix x y
    assume "x \<in> set (map f (calculations g))"
      and "y \<in> set (map f (concat (map (\<lambda>(key, g). calculations g) tab)))"
    then obtain c c' key' g' where c: "c \<in> set (calculations g)" "x = f c"
      and t: "(key', g') \<in> set tab" and c': "c' \<in> set (calculations g')" "y = f c'" by auto
    from head c have "x = length key" by simp
    moreover from rest t c' have "y = length key'" by auto
    moreover from le t have "length key \<le> length key'" by auto
    ultimately show "x \<le> y" by simp
  qed
  have "map f (concat (map (\<lambda>(key, g). calculations g) (kg # tab)))
      = map f (calculations g) @ map f (concat (map (\<lambda>(key, g). calculations g) tab))"
    by (simp add: kg)
  moreover have "sorted (map f (calculations g)
      @ map f (concat (map (\<lambda>(key, g). calculations g) tab)))"
    by (subst sorted_append) (intro conjI a ih b)
  ultimately show ?case by (simp only:)
qed

section \<open>Fewer numbers first\<close>

text \<open>
  C5. The engine returns for every input, and in its result list the number of
  source numbers used never decreases: a result with \<open>k\<close> numbers comes before
  every result with more than \<open>k\<close>. The groups are created, and walked, in
  ascending order of size, each calculation of a group uses as many numbers as
  the group has, and the result list is the walk filtered by the minimal
  difference.
\<close>

theorem fewer_numbers_first:
  "\<exists>s d rs. Solutions_init (rev (sort unsorted_numbers)) = Inr s
     \<and> countdown_solver target unsorted_numbers = Inr (d, rs)
     \<and> (\<forall>(key, g) \<in> set (all_groups s). \<forall>c \<in> set (calculations g).
           numbers_used (expr c) = length key)
     \<and> sorted (map (\<lambda>(key, g). length key) (all_groups s))
     \<and> rs = filter (\<lambda>c. \<bar>result c - target\<bar> = d) (walk s)
     \<and> sorted (map (\<lambda>c. numbers_used (expr c)) rs)"
proof -
  define nums where "nums = rev (sort unsorted_numbers)"
  from unique_groups_blanks [of nums] obtain tab where
    tab: "unique_groups nums = Inr tab"
    and inv: "table_inv nums (1 + length nums) tab"
    and bl: "\<forall>(key, g) \<in> set tab. \<forall>c \<in> set (calculations g).
        blanks (expr c) = 2 * (length key - 1)" by blast
  define s where "s = \<lparr>all_numbers = nums, size_solutions = length nums, all_groups = tab\<rparr>"
  have s: "Solutions_init nums = Inr s" by (simp add: Solutions_init_def tab s_def)
  have used: "numbers_used (expr c) = length key"
    if "(key, g) \<in> set tab" "c \<in> set (calculations g)" for key g c
  proof -
    from inv that(1) have "1 \<le> length key" unfolding table_inv_def by auto
    moreover from bl that have "blanks (expr c) = 2 * (length key - 1)" by auto
    ultimately show ?thesis by (rule numbers_used_of_blanks)
  qed
  then have u: "\<forall>(key, g) \<in> set tab. \<forall>c \<in> set (calculations g).
      numbers_used (expr c) = length key" by auto
  from inv have srt: "sorted (map (\<lambda>(key, g). length key) tab)"
    unfolding table_inv_def by simp
  from sorted_concat_groups [OF u srt]
  have w: "sorted (map (\<lambda>c. numbers_used (expr c)) (walk s))" by (simp add: walk_def s_def)
  obtain d rs where sc: "scan target (walk s) = (d, rs)" by (cases "scan target (walk s)")
  from scan_filter [OF sc] have f: "rs = filter (\<lambda>c. \<bar>result c - target\<bar> = d) (walk s)" .
  from w have r: "sorted (map (\<lambda>c. numbers_used (expr c)) rs)"
    unfolding f by (rule sorted_filter)
  have cs: "countdown_solver target unsorted_numbers = Inr (d, rs)"
    using s sc by (simp add: countdown_solver_def nums_def [symmetric])
  have ag: "all_groups s = tab" by (simp add: s_def)
  from s cs u srt f r show ?thesis unfolding nums_def ag [symmetric] by blast
qed

theorem fewer_numbers_first_witness:
  "sorted (map (\<lambda>c. numbers_used (expr c))
     (case countdown_solver 15 [7, 5, 3] of Inl e \<Rightarrow> [] | Inr (d, rs) \<Rightarrow> rs))
   \<and> map (\<lambda>c. numbers_used (expr c))
     (case countdown_solver 15 [7, 5, 3] of Inl e \<Rightarrow> [] | Inr (d, rs) \<Rightarrow> rs) = [2, 3, 3, 3]"
proof -
  from fewer_numbers_first [of "[7, 5, 3]" 15]
  have "sorted (map (\<lambda>c. numbers_used (expr c))
     (case countdown_solver 15 [7, 5, 3] of Inl e \<Rightarrow> [] | Inr (d, rs) \<Rightarrow> rs))" by auto
  moreover have "map (\<lambda>c. numbers_used (expr c))
     (case countdown_solver 15 [7, 5, 3] of Inl e \<Rightarrow> [] | Inr (d, rs) \<Rightarrow> rs) = [2, 3, 3, 3]"
    by code_simp
  ultimately show ?thesis by (rule conjI)
qed

section \<open>The memo table does not change the tables built\<close>

lemma halfbinom_memo_ok:
  assumes "memo_ok cache"
  shows "fst (halfbinom_memo n k cache) = halfbinom n k \<and> memo_ok (snd (halfbinom_memo n k cache))"
  using assms by (auto simp: halfbinom_memo_def memo_ok_def split: option.splits)


lemma partition_memo_ok:
  assumes "memo_ok cache"
  shows "fst (partition_into_unique_pairs_memo nums tab cache) = partition_into_unique_pairs nums tab
    \<and> memo_ok (snd (partition_into_unique_pairs_memo nums tab cache))"
proof (cases "length nums = 1")
  case True
  with assms show ?thesis
    by (simp add: partition_into_unique_pairs_memo_def partition_into_unique_pairs_def)
next
  case False
  obtain l c where h: "halfbinom_memo (int (length nums)) (int (length nums) div 2) cache = (l, c)"
    by (cases "halfbinom_memo (int (length nums)) (int (length nums) div 2) cache")
  with halfbinom_memo_ok [OF assms, of "int (length nums)" "int (length nums) div 2"]
  have "l = halfbinom (int (length nums)) (int (length nums) div 2)" "memo_ok c" by simp_all
  with False h show ?thesis
    by (simp add: partition_into_unique_pairs_memo_def partition_into_unique_pairs_def Let_def)
qed

lemma Group_init_memo_ok:
  assumes "memo_ok cache"
  shows "fst (Group_init_memo nums tab cache) = Group_init nums tab
    \<and> memo_ok (snd (Group_init_memo nums tab cache))"
proof -
  obtain r c where p: "partition_into_unique_pairs_memo nums tab cache = (r, c)"
    by (cases "partition_into_unique_pairs_memo nums tab cache")
  with partition_memo_ok [OF assms, of nums tab]
  have "r = partition_into_unique_pairs nums tab" "memo_ok c" by simp_all
  with p show ?thesis
    by (auto simp: Group_init_memo_def Group_init_def split: sum.splits)
qed

lemma groups_loop_memo_ok:
  "memo_ok cache \<Longrightarrow> fst (groups_loop_memo cs tab cache) = groups_loop cs tab
    \<and> memo_ok (snd (groups_loop_memo cs tab cache))"
proof (induction cs arbitrary: tab cache)
  case Nil
  then show ?case by simp
next
  case (Cons nums cs)
  show ?case
  proof (cases "map_of tab nums \<noteq> None")
    case True
    with Cons.IH [OF Cons.prems, of tab] show ?thesis by simp
  next
    case False
    obtain r c where g: "Group_init_memo nums tab cache = (r, c)"
      by (cases "Group_init_memo nums tab cache")
    with Group_init_memo_ok [OF Cons.prems, of nums tab]
    have r: "r = Group_init nums tab" and c: "memo_ok c" by simp_all
    show ?thesis
    proof (cases "Group_init nums tab")
      case (Inl e)
      with False g r c show ?thesis by simp
    next
      case (Inr grp)
      with False g r Cons.IH [OF c, of "tab @ [(nums, grp)]"] show ?thesis by simp
    qed
  qed
qed

lemma unique_groups_from_memo_ok:
  "memo_ok cache \<Longrightarrow> fst (unique_groups_from_memo nums ms tab cache) = unique_groups_from nums ms tab
    \<and> memo_ok (snd (unique_groups_from_memo nums ms tab cache))"
proof (induction ms arbitrary: tab cache)
  case Nil
  then show ?case by simp
next
  case (Cons m ms)
  obtain r c where g: "groups_loop_memo (combinations nums m) tab cache = (r, c)"
    by (cases "groups_loop_memo (combinations nums m) tab cache")
  with groups_loop_memo_ok [OF Cons.prems, of "combinations nums m" tab]
  have r: "r = groups_loop (combinations nums m) tab" and c: "memo_ok c" by simp_all
  show ?case
  proof (cases "groups_loop (combinations nums m) tab")
    case (Inl e)
    with g r c show ?thesis by simp
  next
    case (Inr tab')
    with g r Cons.IH [OF c, of tab'] show ?thesis by simp
  qed
qed

lemma countdown_solver_memo_ok:
  assumes "memo_ok cache"
  shows "fst (countdown_solver_memo target ns cache) = countdown_solver target ns
    \<and> memo_ok (snd (countdown_solver_memo target ns cache))"
proof -
  define nums where "nums = rev (sort ns)"
  obtain r c where u: "unique_groups_memo nums cache = (r, c)"
    by (cases "unique_groups_memo nums cache")
  with unique_groups_from_memo_ok [OF assms, of nums "[1..<length nums + 1]" "[]"]
  have r: "r = unique_groups nums" and c: "memo_ok c"
    by (simp_all add: unique_groups_memo_def unique_groups_def)
  show ?thesis
  proof (cases "unique_groups nums")
    case (Inl e)
    with u r c show ?thesis
      by (simp add: countdown_solver_memo_def countdown_solver_def Solutions_init_memo_def
          Solutions_init_def nums_def [symmetric])
  next
    case (Inr tab)
    with u r c show ?thesis
      by (simp add: countdown_solver_memo_def countdown_solver_def Solutions_init_memo_def
          Solutions_init_def nums_def [symmetric])
  qed
qed

section \<open>The half-binomial helper\<close>






section \<open>The helper on odd sizes, and two runs\<close>


text \<open>
  C9. The output of a run depends on the target and the numbers only: from any
  two sound states of the memo table, the one state the process keeps between
  runs, the solver returns the same minimal difference and the same result
  list, that of the solver without the table, and it leaves the table sound.
  So a second run, started on the table the first one left, gives the same
  output. (The table of groups keeps the order of insertion, and the set of
  the partition builder is used for membership only.)
\<close>

theorem determinism:
  assumes "memo_ok c1" and "memo_ok c2"
  shows "fst (countdown_solver_memo target ns c1) = fst (countdown_solver_memo target ns c2)
    \<and> fst (countdown_solver_memo target ns c1) = countdown_solver target ns
    \<and> memo_ok (snd (countdown_solver_memo target ns c1))"
  using countdown_solver_memo_ok [OF assms(1), of target ns]
    countdown_solver_memo_ok [OF assms(2), of target ns] by simp

theorem determinism_witness:
  "memo_ok Map.empty
    \<and> fst (countdown_solver_memo 15 [7, 5, 3] (snd (countdown_solver_memo 15 [7, 5, 3] Map.empty)))
      = fst (countdown_solver_memo 15 [7, 5, 3] Map.empty)"
proof -
  have e: "memo_ok Map.empty" by (simp add: memo_ok_def)
  from determinism [OF e e, of 15 "[7, 5, 3]"]
  have ok: "memo_ok (snd (countdown_solver_memo 15 [7, 5, 3] Map.empty))" by simp
  from determinism [OF ok e, of 15 "[7, 5, 3]"] e show ?thesis by simp
qed

section \<open>An empty result list\<close>

text \<open>
  C10. When the absolute difference of every calculation from the target
  exceeds the initial running minimum, which is the target itself, the solver
  returns that initial value as the minimal difference with an empty result
  list. Target 0 with positive source numbers, whatever they are, is such a
  run: every result is above zero.
\<close>

theorem empty_results:
  "(Solutions_init (rev (sort unsorted_numbers)) = Inr s
      \<and> (\<forall>c \<in> set (walk s). target < \<bar>result c - target\<bar>)
     \<longrightarrow> countdown_solver target unsorted_numbers = Inr (target, []))
   \<and> ((\<forall>n \<in> set unsorted_numbers. 0 < n)
     \<longrightarrow> countdown_solver 0 unsorted_numbers = Inr (0, []))"
proof (intro conjI impI)
  assume "Solutions_init (rev (sort unsorted_numbers)) = Inr s
      \<and> (\<forall>c \<in> set (walk s). target < \<bar>result c - target\<bar>)"
  then show "countdown_solver target unsorted_numbers = Inr (target, [])"
    using scan_fold_skip [of "walk s" target target "[]"]
    by (simp add: countdown_solver_def scan_def)
next
  assume "\<forall>n \<in> set unsorted_numbers. 0 < n"
  then have "\<forall>n \<in> set (rev (sort unsorted_numbers)). 0 < n" by simp
  from unique_groups_positive [OF this] obtain tab where
    tab: "unique_groups (rev (sort unsorted_numbers)) = Inr tab"
    and pos: "\<forall>(key, g) \<in> set tab. \<forall>c \<in> set (calculations g). 0 < result c" by blast
  have "(0::int) < \<bar>result c - 0\<bar>"
    if "c \<in> set (concat (map (\<lambda>(key, g). calculations g) tab))" for c
  proof -
    from that obtain key g where "(key, g) \<in> set tab" "c \<in> set (calculations g)" by auto
    with pos have "0 < result c" by auto
    then show ?thesis by simp
  qed
  then have "\<forall>c \<in> set (concat (map (\<lambda>(key, g). calculations g) tab)).
      (0::int) < \<bar>result c - 0\<bar>" by blast
  from scan_fold_skip [OF this, of "[]"] tab
  show "countdown_solver 0 unsorted_numbers = Inr (0, [])"
    by (simp add: countdown_solver_def scan_def Solutions_init_def walk_def)
qed

theorem empty_results_witness:
  "(0::int) < 2 \<and> countdown_solver 0 [2] = Inr (0, [])
    \<and> (0::int) < 3 \<and> countdown_solver 0 [3, 2] = Inr (0, [])"
proof -
  have w: "\<forall>c \<in> set (walk \<lparr>all_numbers = [2], size_solutions = 1,
    all_groups = [([2], Group [2] 1 [] [\<lparr>expr = ''2'', result = 2, is_singleton = True\<rparr>])]\<rparr>).
      (0::int) < \<bar>result c - 0\<bar>"
    by (simp add: walk_def)
  from empty_results [THEN conjunct1, THEN mp, OF conjI, OF solutions_single_2 w]
  have a: "countdown_solver 0 [2] = Inr (0, [])" .
  have p: "\<forall>n \<in> set [3, 2 :: int]. 0 < n" by simp
  from empty_results [THEN conjunct2, THEN mp, OF p]
  have b: "countdown_solver 0 [3, 2] = Inr (0, [])" .
  from a b show ?thesis by simp
qed

section \<open>The limit of the enumeration\<close>









end
